theory Spec2Isabelle
  imports Complex_Main "HOL-Library.Word" "HOL-Library.Multiset"
begin

section \<open>The pencil container of the AMR translation solver\<close>

text \<open>
  This theory embeds \<^verbatim>\<open>struct setOfPencils\<close> of
  \<^verbatim>\<open>vlasovsolver/cpu_trans_map_amr.hpp\<close>: its constructor and the member
  functions \<^verbatim>\<open>addPencil\<close>, \<^verbatim>\<open>getIds\<close> and \<^verbatim>\<open>split\<close>.

  Types. \<^verbatim>\<open>uint\<close> is the 32-bit unsigned integer and \<^verbatim>\<open>CellID\<close> the 64-bit
  unsigned integer of the mesh library; both typedefs live in headers that the translation
  solver includes (\<^verbatim>\<open>common.h\<close>, \<^verbatim>\<open>spatial_cell.hpp\<close>). They are words here, so \<open>+\<close>
  wraps around as the C++ operators do. \<^verbatim>\<open>Realv\<close> and \<^verbatim>\<open>Real\<close> are floating-point
  types; positions are modelled as exact reals, and every concrete evaluation below uses
  values on which binary floating-point arithmetic is exact as well.

  Results. \<^verbatim>\<open>std::vector::at\<close> throws \<^verbatim>\<open>std::out_of_range\<close>: the model
  returns \<open>Inl OutOfRange\<close>. The unchecked \<^verbatim>\<open>operator[]\<close> beyond the end of a vector is
  undefined behaviour: the model returns \<open>Inl UndefinedRead\<close> at the first such access. A
  loop that need not terminate returns an \<open>option\<close>, \<open>None\<close> meaning that it runs forever.
  Memory exhaustion in \<^verbatim>\<open>push_back\<close> is not modelled.
\<close>

type_synonym uint = "32 word"
type_synonym CellID = "64 word"

datatype error = OutOfRange | UndefinedRead

text \<open>
  The fields \<^verbatim>\<open>N\<close>, \<^verbatim>\<open>x\<close> and \<^verbatim>\<open>y\<close> are called \<open>numN\<close>, \<open>xPos\<close> and
  \<open>yPos\<close>, since a record field is a constant and the short names are wanted for
  variables. The other fields keep their names.
\<close>

record setOfPencils =
  numN :: uint
  sumOfLengths :: uint
  lengthOfPencils :: "uint list"
  ids :: "CellID list"
  xPos :: "real list"
  yPos :: "real list"
  periodic :: "bool list"
  path :: "uint list list"

text \<open>The constructor sets the two counters to zero; the vectors start empty.\<close>

definition emptySet :: setOfPencils where
  "emptySet = \<lparr>numN = 0, sumOfLengths = 0, lengthOfPencils = [], ids = [],
                xPos = [], yPos = [], periodic = [], path = []\<rparr>"

text \<open>
  \<^verbatim>\<open>addPencil\<close>: both counters are 32-bit and wrap; \<^verbatim>\<open>idsIn.size()\<close> is truncated to
  32 bits when it is stored in \<^verbatim>\<open>lengthOfPencils\<close> and when it is added to
  \<^verbatim>\<open>sumOfLengths\<close>.
\<close>

definition addPencil ::
  "CellID list \<Rightarrow> real \<Rightarrow> real \<Rightarrow> bool \<Rightarrow> uint list \<Rightarrow> setOfPencils \<Rightarrow> setOfPencils" where
  "addPencil idsIn xIn yIn periodicIn pathIn s =
     s\<lparr>numN := numN s + 1,
       sumOfLengths := sumOfLengths s + of_nat (length idsIn),
       lengthOfPencils := lengthOfPencils s @ [of_nat (length idsIn)],
       ids := ids s @ idsIn,
       xPos := xPos s @ [xIn],
       yPos := yPos s @ [yIn],
       periodic := periodic s @ [periodicIn],
       path := path s @ [pathIn]\<rparr>"

text \<open>
  The first loop of \<^verbatim>\<open>getIds\<close>:
  \<^verbatim>\<open>for (uint i = 0; i < pencilId; i++) ibeg += lengthOfPencils[i];\<close>
  with \<^verbatim>\<open>ibeg\<close> of type \<^verbatim>\<open>CellID\<close>. The counter stays below \<^verbatim>\<open>pencilId\<close>, so
  it never wraps and the loop terminates.
\<close>

function beginLoop :: "uint list \<Rightarrow> uint \<Rightarrow> uint \<Rightarrow> CellID \<Rightarrow> error + CellID" where
  "beginLoop ls pencilId i ibeg =
     (if i < pencilId
      then (if unat i < length ls
            then beginLoop ls pencilId (i + 1) (ibeg + ucast (ls ! unat i))
            else Inl UndefinedRead)
      else Inr ibeg)"
  by pat_completeness auto
termination
proof (relation "measure (\<lambda>(ls, pencilId, i, ibeg). unat pencilId - unat i)")
  show "wf (measure (\<lambda>(ls, pencilId, i, ibeg). unat pencilId - unat i))" by simp
next
  fix ls :: "uint list" and pencilId i :: uint and ibeg :: CellID
  assume lt: "i < pencilId"
  then have below: "unat i < unat pencilId" by (simp add: word_less_nat_alt)
  have "unat pencilId < 2 ^ LENGTH(32)" by (rule unsigned_less)
  with below have "Suc (unat i) < 2 ^ LENGTH(32)" by linarith
  then have "unat i + unat (1::uint) < 2 ^ LENGTH(32)" by simp
  then have "unat (i + 1) = unat i + unat (1::uint)" by (simp only: unat_add_lem)
  with below show "((ls, pencilId, i + 1, ibeg + ucast (ls ! unat i)), (ls, pencilId, i, ibeg))
        \<in> measure (\<lambda>(ls, pencilId, i, ibeg). unat pencilId - unat i)"
    by simp
qed

declare beginLoop.simps [simp del]

text \<open>
  The second loop of \<^verbatim>\<open>getIds\<close>:
  \<^verbatim>\<open>for (uint i = ibeg; i < iend; i++) idsOut.push_back(ids[i]);\<close>
  The counter is 32 bits wide and starts at the truncated \<^verbatim>\<open>ibeg\<close>; the comparison
  is made in 64 bits. When \<^verbatim>\<open>iend\<close> does not fit in 32 bits the counter wraps and the
  condition stays true, so the loop is a partial function.
\<close>

partial_function (option) copyLoop ::
  "CellID list \<Rightarrow> CellID \<Rightarrow> uint \<Rightarrow> CellID list \<Rightarrow> (error + CellID list) option" where
  "copyLoop cells iend i idsOut =
     (if ucast i < iend
      then (if unat i < length cells
            then copyLoop cells iend (i + 1) (idsOut @ [cells ! unat i])
            else Some (Inl UndefinedRead))
      else Some (Inr idsOut))"

definition getIds :: "setOfPencils \<Rightarrow> uint \<Rightarrow> (error + CellID list) option" where
  "getIds s pencilId =
     (if pencilId > numN s then Some (Inr [])
      else case beginLoop (lengthOfPencils s) pencilId 0 0 of
             Inl e \<Rightarrow> Some (Inl e)
           | Inr ibeg \<Rightarrow>
               if unat pencilId < length (lengthOfPencils s)
               then copyLoop (ids s) (ibeg + ucast (lengthOfPencils s ! unat pencilId))
                      (ucast ibeg) []
               else Some (Inl UndefinedRead))"

text \<open>
  \<^verbatim>\<open>split\<close>, statement by statement. The three paths are copied with the checked
  \<^verbatim>\<open>at\<close> before anything is changed; \<^verbatim>\<open>x\<close>, \<^verbatim>\<open>y\<close> and \<^verbatim>\<open>periodic\<close> are indexed
  unchecked. The arguments of each \<^verbatim>\<open>addPencil\<close> call are read from the set as it is at
  that call, that is after \<^verbatim>\<open>x[pencilId]\<close> and \<^verbatim>\<open>y[pencilId]\<close> were updated.
\<close>

definition split :: "uint \<Rightarrow> real \<Rightarrow> real \<Rightarrow> setOfPencils \<Rightarrow> (error + setOfPencils) option" where
  "split pencilId dx dy s =
     (case getIds s pencilId of
        None \<Rightarrow> None
      | Some (Inl e) \<Rightarrow> Some (Inl e)
      | Some (Inr idsP) \<Rightarrow>
          (let p = unat pencilId in
           if \<not> p < length (path s) then Some (Inl OutOfRange)
           else
             let path1 = path s ! p @ [1];
                 path2 = path s ! p @ [2];
                 path3 = path s ! p @ [3]
             in if \<not> p < length (xPos s) then Some (Inl UndefinedRead)
                else
                  let s1 = s\<lparr>xPos := (xPos s)[p := xPos s ! p - 0.25 * dx]\<rparr>
                  in if \<not> p < length (yPos s1) then Some (Inl UndefinedRead)
                     else
                       let s2 = s1\<lparr>yPos := (yPos s1)[p := yPos s1 ! p + 0.25 * dy]\<rparr>;
                           s3 = s2\<lparr>path := (path s2)[p := path s2 ! p @ [0]]\<rparr>
                       in if \<not> p < length (periodic s3) then Some (Inl UndefinedRead)
                          else
                            let s4 = addPencil idsP (xPos s3 ! p + 0.25 * dx)
                                       (yPos s3 ! p + 0.25 * dy) (periodic s3 ! p) path1 s3;
                                s5 = addPencil idsP (xPos s4 ! p - 0.25 * dx)
                                       (yPos s4 ! p - 0.25 * dy) (periodic s4 ! p) path2 s4;
                                s6 = addPencil idsP (xPos s5 ! p + 0.25 * dx)
                                       (yPos s5 ! p - 0.25 * dy) (periodic s5 ! p) path3 s5
                            in Some (Inr s6)))"

subsection \<open>Representation invariant, slices and reachable sets\<close>

text \<open>
  The representation invariant: \<^verbatim>\<open>N\<close> is the number of entries of each per-pencil
  vector, and \<^verbatim>\<open>sumOfLengths\<close> is both the sum of the stored lengths and the number
  of stored cell ids.
\<close>

definition repInv :: "setOfPencils \<Rightarrow> bool" where
  "repInv s \<longleftrightarrow>
     unat (numN s) = length (lengthOfPencils s) \<and>
     unat (numN s) = length (xPos s) \<and>
     unat (numN s) = length (yPos s) \<and>
     unat (numN s) = length (periodic s) \<and>
     unat (numN s) = length (path s) \<and>
     unat (sumOfLengths s) = sum_list (map unat (lengthOfPencils s)) \<and>
     unat (sumOfLengths s) = length (ids s)"

text \<open>
  The cell ids that belong to pencil \<open>k\<close>: the contiguous slice of \<^verbatim>\<open>ids\<close> of length
  \<^verbatim>\<open>lengthOfPencils[k]\<close> that starts at the sum of the preceding lengths.
\<close>

definition pencilSlice :: "setOfPencils \<Rightarrow> nat \<Rightarrow> CellID list" where
  "pencilSlice s k =
     take (unat (lengthOfPencils s ! k))
       (drop (sum_list (map unat (take k (lengthOfPencils s)))) (ids s))"

text \<open>
  The sets that calls of \<^verbatim>\<open>addPencil\<close> and of \<^verbatim>\<open>split\<close> build from the
  default-constructed one. A call of \<^verbatim>\<open>split\<close> counts when it returns.
\<close>

inductive reachable :: "setOfPencils \<Rightarrow> bool" where
  initial: "reachable emptySet"
| added: "reachable s \<Longrightarrow> reachable (addPencil idsIn xIn yIn periodicIn pathIn s)"
| splitted: "reachable s \<Longrightarrow> split pencilId dx dy s = Some (Inr s') \<Longrightarrow> reachable s'"

section \<open>The remapper's displacement check and the accumulator\<close>

text \<open>
  The header only declares \<^verbatim>\<open>propagatePencil\<close> and
  \<^verbatim>\<open>update_remote_mapping_contribution\<close>; their bodies are in a translation unit that
  is not among the sources. The definitions of this section follow the specification
  instead of code.
\<close>

text \<open>
  Modelled from the spec: the error kinds of the transport pass are not declared in the
  header. These are the fatal kinds of the specification's error table; \<open>NegativeDensity\<close>
  is recovered where it occurs and never returned.
\<close>

datatype passError = CorruptMeshTopology | InsufficientStencilWidth | CflViolation | TransferMismatch

text \<open>
  Modelled from the spec: the body of \<^verbatim>\<open>propagatePencil\<close> is missing. The signed
  displacement is the velocity component along the dimension times \<open>dt\<close> divided by the
  cell width, in cell-width units.
\<close>

definition displacement :: "real \<Rightarrow> real \<Rightarrow> real \<Rightarrow> real" where
  "displacement v dt dz = v * dt / dz"

text \<open>
  Modelled from the spec: the body of \<^verbatim>\<open>propagatePencil\<close> is missing. The half-length
  of a pencil of \<open>n\<close> cells, in cell-width units.
\<close>

definition halfLength :: "nat \<Rightarrow> real" where
  "halfLength n = real n / 2"

text \<open>
  Modelled from the spec: the body of \<^verbatim>\<open>propagatePencil\<close> is missing. For one pencil and
  one velocity sample: the displacement must be smaller in absolute value than the pencil
  half-length, otherwise the remap fails with \<open>CflViolation\<close>. The reconstruction of the
  profile and its integration over the displaced cells are not fixed by the specification;
  they are the parameter \<open>remap\<close>. A negative density is recovered by clamping to zero and
  is not an error of the result.
\<close>

definition propagatePencil ::
  "(real \<Rightarrow> real list \<Rightarrow> real list) \<Rightarrow> real \<Rightarrow> real \<Rightarrow> real \<Rightarrow> real list \<Rightarrow> passError + real list" where
  "propagatePencil remap v dt dz vals =
     (let d = displacement v dt dz
      in if \<bar>d\<bar> < halfLength (length vals)
         then Inr (map (max 0) (remap d vals))
         else Inl CflViolation)"

text \<open>
  Modelled from the spec: the body of \<^verbatim>\<open>update_remote_mapping_contribution\<close> is missing.
  A remote contribution names its target cell, the rank that owns the target, the
  population, and the partial density increments. The type \<open>'v\<close> of the increments is the
  block of density samples with its addition.
\<close>

record 'v RemoteContribution =
  targetCell :: CellID
  owningRank :: nat
  populationId :: nat
  increments :: 'v

text \<open>
  Modelled from the spec: the body of \<^verbatim>\<open>update_remote_mapping_contribution\<close> is missing.
  The authoritative storage holds one block of densities per cell and population. A record
  destined for a cell that this rank owns is added to the block of its target; a record
  owned by another rank is routed there and leaves the local storage as it is.
\<close>

definition addContribution ::
  "nat \<Rightarrow> ('v::ab_semigroup_add) RemoteContribution \<Rightarrow> (CellID \<times> nat \<Rightarrow> 'v) \<Rightarrow> (CellID \<times> nat \<Rightarrow> 'v)" where
  "addContribution myRank r st =
     (if owningRank r = myRank
      then st((targetCell r, populationId r) := st (targetCell r, populationId r) + increments r)
      else st)"

text \<open>
  Modelled from the spec: the body of \<^verbatim>\<open>update_remote_mapping_contribution\<close> is missing.
  After a pass the received records are summed into the storage; the accumulation fails with
  \<open>TransferMismatch\<close> when the number of received records is not the expected one.
\<close>

definition accumulate ::
  "nat \<Rightarrow> nat \<Rightarrow> ('v::ab_semigroup_add) RemoteContribution list \<Rightarrow> (CellID \<times> nat \<Rightarrow> 'v)
     \<Rightarrow> passError + (CellID \<times> nat \<Rightarrow> 'v)" where
  "accumulate myRank expected records st =
     (if length records \<noteq> expected then Inl TransferMismatch
      else Inr (fold (addContribution myRank) records st))"

section \<open>Word arithmetic of the two loops\<close>

lemma unat_ucast_32_64: "unat (ucast (i :: uint) :: CellID) = unat i"
proof -
  have "unat i < 2 ^ 32" using unsigned_less[of i] by simp
  then have "unat i < 2 ^ 64" by simp
  then show ?thesis by (simp add: unsigned_ucast_eq take_bit_nat_eq_self)
qed

lemma unat_of_nat_64: "n < 2 ^ 64 \<Longrightarrow> unat (of_nat n :: CellID) = n"
  by (simp add: unsigned_of_nat take_bit_nat_eq_self)

lemma unat_of_nat_32: "n < 2 ^ 32 \<Longrightarrow> unat (of_nat n :: uint) = n"
  by (simp add: unsigned_of_nat take_bit_nat_eq_self)

lemma unat_ucast_64_32: "unat (w :: CellID) < 2 ^ 32 \<Longrightarrow> unat (ucast w :: uint) = unat w"
  by (simp add: unsigned_ucast_eq take_bit_nat_eq_self)

lemma unat_succ_below: "(i :: uint) < p \<Longrightarrow> unat (i + 1) = Suc (unat i)"
proof -
  assume "i < p"
  then have "unat i < unat p" by (simp add: word_less_nat_alt)
  moreover have "unat p < 2 ^ LENGTH(32)" by (rule unsigned_less)
  ultimately have "Suc (unat i) < 2 ^ LENGTH(32)" by linarith
  then have "unat i + unat (1::uint) < 2 ^ LENGTH(32)" by simp
  then have "unat (i + 1) = unat i + unat (1::uint)" by (simp only: unat_add_lem)
  then show ?thesis by simp
qed

text \<open>The first loop adds up the lengths of the pencils before \<open>p\<close>.\<close>

lemma beginLoop_sum:
  "unat i \<le> unat p \<Longrightarrow> unat p \<le> length ls \<Longrightarrow>
   beginLoop ls p i acc =
     Inr (acc + of_nat (sum_list (map unat (take (unat p - unat i) (drop (unat i) ls)))))"
proof (induction ls p i acc rule: beginLoop.induct)
  case (1 ls p i acc)
  show ?case
  proof (cases "i < p")
    case True
    then have lt: "unat i < unat p" by (simp add: word_less_nat_alt)
    with "1.prems" have inb: "unat i < length ls" by simp
    have suc: "unat (i + 1) = Suc (unat i)" using True by (rule unat_succ_below)
    have step: "take (unat p - unat i) (drop (unat i) ls)
                = ls ! unat i # take (unat p - Suc (unat i)) (drop (Suc (unat i)) ls)"
      using lt inb by (metis Cons_nth_drop_Suc Suc_diff_Suc take_Suc_Cons)
    have ih: "beginLoop ls p (i + 1) (acc + ucast (ls ! unat i)) =
       Inr (acc + ucast (ls ! unat i)
            + of_nat (sum_list (map unat (take (unat p - unat (i + 1)) (drop (unat (i + 1)) ls)))))"
      using "1.IH"[OF True inb] lt "1.prems" suc by simp
    have unfold: "beginLoop ls p i acc = beginLoop ls p (i + 1) (acc + ucast (ls ! unat i))"
      using True inb by (subst beginLoop.simps) simp
    show ?thesis
      unfolding unfold ih by (simp add: step suc add.assoc)
  next
    case False
    with "1.prems" have "unat p = unat i" by (simp add: word_less_nat_alt)
    with False show ?thesis by (subst beginLoop.simps) simp
  qed
qed

text \<open>
  The second loop returns, and copies the cells from \<open>i\<close> up to \<open>iend\<close>, when \<open>iend\<close> is
  within the vector and fits the 32-bit counter.
\<close>

lemma copyLoop_slice:
  "unat iend - unat i = n \<Longrightarrow> unat i \<le> unat iend \<Longrightarrow> unat iend \<le> length cells \<Longrightarrow>
   unat iend < 2 ^ 32 \<Longrightarrow>
   copyLoop cells iend i acc = Some (Inr (acc @ take n (drop (unat i) cells)))"
proof (induction n arbitrary: i acc)
  case 0
  then have "unat (ucast i :: CellID) = unat iend" by (simp add: unat_ucast_32_64)
  then have "\<not> (ucast i :: CellID) < iend" by (simp add: word_less_nat_alt)
  then show ?case by (subst copyLoop.simps) simp
next
  case (Suc n)
  then have lt: "unat i < unat iend" by simp
  then have cond: "(ucast i :: CellID) < iend" by (simp add: word_less_nat_alt unat_ucast_32_64)
  from lt Suc.prems have inb: "unat i < length cells" by simp
  from lt Suc.prems have "Suc (unat i) < 2 ^ LENGTH(32)" by simp
  then have "unat i + unat (1::uint) < 2 ^ LENGTH(32)" by simp
  then have "unat (i + 1) = unat i + unat (1::uint)" by (simp only: unat_add_lem)
  then have suc: "unat (i + 1) = Suc (unat i)" by simp
  have ih: "copyLoop cells iend (i + 1) (acc @ [cells ! unat i])
            = Some (Inr ((acc @ [cells ! unat i]) @ take n (drop (unat (i + 1)) cells)))"
    using Suc.prems lt suc by (intro Suc.IH) simp_all
  have step: "take (Suc n) (drop (unat i) cells) = cells ! unat i # take n (drop (Suc (unat i)) cells)"
    using inb by (metis Cons_nth_drop_Suc take_Suc_Cons)
  have unfold: "copyLoop cells iend i acc = copyLoop cells iend (i + 1) (acc @ [cells ! unat i])"
    using cond inb by (subst copyLoop.simps) simp
  show ?case unfolding unfold ih by (simp add: step suc)
qed

text \<open>
  When \<open>iend\<close> does not fit in 32 bits and the vector holds at least \<open>2^32\<close> cells, the
  condition of the second loop is true for every value of the counter and every read is
  within the vector: the loop does not return.
\<close>

lemma copyLoop_never_returns:
  assumes big: "2 ^ 32 \<le> unat iend" "2 ^ 32 \<le> length cells"
  shows "copyLoop cells iend i acc = None"
proof -
  have "\<not> (2 ^ 32 \<le> unat iend' \<and> 2 ^ 32 \<le> length cells')"
    if "copyLoop cells' iend' i' acc' = Some r" for cells' iend' i' acc' r
  proof (rule copyLoop.raw_induct[where P = "\<lambda>cs e j out r. \<not> (2 ^ 32 \<le> unat e \<and> 2 ^ 32 \<le> length cs)", OF _ that])
    fix f :: "CellID list \<Rightarrow> CellID \<Rightarrow> uint \<Rightarrow> CellID list \<Rightarrow> (error + CellID list) option"
    fix cs :: "CellID list" and e :: CellID and j :: uint and out :: "CellID list"
      and r :: "error + CellID list"
    assume IH: "\<And>cs e j out y. f cs e j out = Some y \<Longrightarrow> \<not> (2 ^ 32 \<le> unat e \<and> 2 ^ 32 \<le> length cs)"
    assume step: "(if ucast j < e
                   then if unat j < length cs
                        then f cs e (j + 1) (out @ [cs ! unat j])
                        else Some (Inl UndefinedRead)
                   else Some (Inr out)) = Some r"
    show "\<not> (2 ^ 32 \<le> unat e \<and> 2 ^ 32 \<le> length cs)"
    proof
      assume b: "2 ^ 32 \<le> unat e \<and> 2 ^ 32 \<le> length cs"
      have i: "unat j < 2 ^ 32" using unsigned_less[of j] by simp
      have "unat (ucast j :: CellID) = unat j" by (rule unat_ucast_32_64)
      with i b have c: "(ucast j :: CellID) < e" by (simp add: word_less_nat_alt)
      from i b have inb: "unat j < length cs" by simp
      from step c inb have "f cs e (j + 1) (out @ [cs ! unat j]) = Some r"
        by simp
      from IH[OF this] b show False by simp
    qed
  qed
  with big show ?thesis by (cases "copyLoop cells iend i acc") auto
qed

section \<open>Reading a pencil back: \<open>getIds\<close>\<close>

lemma sum_take_nth_le:
  "k < length (xs :: nat list) \<Longrightarrow> sum_list (take k xs) + xs ! k \<le> sum_list xs"
proof -
  assume "k < length xs"
  then have "xs = take k xs @ xs ! k # drop (Suc k) xs" by (rule id_take_nth_drop)
  then have "sum_list xs = sum_list (take k xs) + (xs ! k + sum_list (drop (Suc k) xs))"
    by (metis sum_list.Cons sum_list.append)
  then show ?thesis by simp
qed

lemma slice_bounds:
  assumes "repInv s" and "k < length (lengthOfPencils s)"
  shows "sum_list (map unat (take k (lengthOfPencils s))) + unat (lengthOfPencils s ! k)
         \<le> length (ids s)"
    and "length (ids s) < 2 ^ 32"
proof -
  have "sum_list (take k (map unat (lengthOfPencils s))) + map unat (lengthOfPencils s) ! k
        \<le> sum_list (map unat (lengthOfPencils s))"
    using assms(2) by (intro sum_take_nth_le) simp
  with assms show "sum_list (map unat (take k (lengthOfPencils s))) + unat (lengthOfPencils s ! k)
         \<le> length (ids s)"
    by (simp add: repInv_def take_map)
  have "unat (sumOfLengths s) < 2 ^ 32" using unsigned_less[of "sumOfLengths s"] by simp
  with assms(1) show "length (ids s) < 2 ^ 32" by (simp add: repInv_def)
qed

lemma length_pencilSlice:
  assumes "repInv s" and "k < length (lengthOfPencils s)"
  shows "length (pencilSlice s k) = unat (lengthOfPencils s ! k)"
  using slice_bounds(1)[OF assms] by (simp add: pencilSlice_def)

text \<open>
  For a pencil index below \<^verbatim>\<open>N\<close>, \<open>getIds\<close> stays within both vectors, returns, and
  returns the slice of the pencil.
\<close>

lemma getIds_slice:
  assumes inv: "repInv s" and lt: "p < numN s"
  shows "getIds s p = Some (Inr (pencilSlice s (unat p)))"
proof -
  let ?ls = "lengthOfPencils s"
  let ?k = "unat p"
  let ?S = "sum_list (map unat (take ?k ?ls))"
  let ?L = "unat (?ls ! ?k)"
  from lt have "?k < unat (numN s)" by (simp add: word_less_nat_alt)
  with inv have k: "?k < length ?ls" by (simp add: repInv_def)
  from lt have notgt: "\<not> p > numN s" by simp
  have b1: "?S + ?L \<le> length (ids s)" and b2: "length (ids s) < 2 ^ 32"
    using slice_bounds[OF inv k] by simp_all
  have beg: "beginLoop ?ls p 0 0 = Inr (of_nat ?S)"
    using beginLoop_sum[of 0 p ?ls 0] k by simp
  have S64: "?S < 2 ^ 64" using b1 b2 by simp
  have uS: "unat (of_nat ?S :: CellID) = ?S" using S64 by (rule unat_of_nat_64)
  have "unat (of_nat ?S :: CellID) + unat (ucast (?ls ! ?k) :: CellID) < 2 ^ LENGTH(64)"
    using b1 b2 by (simp add: uS unat_ucast_32_64)
  then have uend: "unat (of_nat ?S + ucast (?ls ! ?k) :: CellID) = ?S + ?L"
    by (simp only: unat_add_lem[THEN iffD1] uS unat_ucast_32_64)
  have "unat (of_nat ?S :: CellID) < 2 ^ 32" using b1 b2 by (simp add: uS)
  then have ui: "unat (ucast (of_nat ?S :: CellID) :: uint) = ?S"
    by (simp only: unat_ucast_64_32 uS)
  define iend :: CellID where "iend = of_nat ?S + ucast (?ls ! ?k)"
  define i0 :: uint where "i0 = ucast (of_nat ?S :: CellID)"
  have e: "unat iend = ?S + ?L" and i: "unat i0 = ?S"
    by (simp_all only: iend_def i0_def uend ui)
  have "copyLoop (ids s) iend i0 [] = Some (Inr ([] @ take ?L (drop (unat i0) (ids s))))"
  proof (rule copyLoop_slice)
    show "unat iend - unat i0 = ?L" by (simp add: e i)
    show "unat i0 \<le> unat iend" by (simp add: e i)
    show "unat iend \<le> length (ids s)" using b1 by (simp add: e)
    show "unat iend < 2 ^ 32" using b1 b2 by (simp add: e)
  qed
  then have "copyLoop (ids s) (of_nat ?S + ucast (?ls ! ?k)) (ucast (of_nat ?S :: CellID)) []
        = Some (Inr (take ?L (drop ?S (ids s))))"
    by (simp add: i flip: iend_def i0_def)
  then show ?thesis
    using notgt k by (simp add: getIds_def beg pencilSlice_def)
qed

text \<open>Then \<open>getIds\<close> does not return either.\<close>

lemma getIds_never_returns:
  assumes "\<not> numN s < p"
    and "beginLoop (lengthOfPencils s) p 0 0 = Inr b"
    and "unat p < length (lengthOfPencils s)"
    and "2 ^ 32 \<le> unat (b + ucast (lengthOfPencils s ! unat p))"
    and "2 ^ 32 \<le> length (ids s)"
  shows "getIds s p = None"
  using assms by (simp add: getIds_def copyLoop_never_returns)

text \<open>Above \<^verbatim>\<open>N\<close> the guard returns the empty vector, whatever the set holds.\<close>

lemma getIds_above: "numN s < p \<Longrightarrow> getIds s p = Some (Inr [])"
  by (simp add: getIds_def)

text \<open>
  At \<^verbatim>\<open>pencilId == N\<close> the guard \<^verbatim>\<open>pencilId > N\<close> lets the call through: the first
  loop adds up all \<^verbatim>\<open>N\<close> lengths and \<^verbatim>\<open>lengthOfPencils[N]\<close> is read one past the end.
\<close>

lemma getIds_at_N:
  assumes "repInv s"
  shows "getIds s (numN s) = Some (Inl UndefinedRead)"
proof -
  from assms have n: "unat (numN s) = length (lengthOfPencils s)" by (simp add: repInv_def)
  have "beginLoop (lengthOfPencils s) (numN s) 0 0
        = Inr (0 + of_nat (sum_list (map unat (take (unat (numN s) - unat (0::uint))
              (drop (unat (0::uint)) (lengthOfPencils s))))))"
    by (rule beginLoop_sum) (simp_all add: n)
  then show ?thesis by (simp add: getIds_def n)
qed

text \<open>
  C9 (the container is the default-constructed one, \<^verbatim>\<open>pencilId = 0 = N\<close>): the claim
  says that \<open>getIds\<close> only reads within \<^verbatim>\<open>lengthOfPencils\<close> and \<^verbatim>\<open>ids\<close> and returns
  the empty vector for every \<^verbatim>\<open>pencilId\<close> outside \<open>0..N-1\<close>. The code reads
  \<^verbatim>\<open>lengthOfPencils[0]\<close> of an empty vector.
\<close>

theorem getIds_empty_set_reads_past_end:
  "getIds emptySet 0 = Some (Inl UndefinedRead)"
  by (simp add: getIds_def emptySet_def beginLoop.simps)

section \<open>Splitting a pencil\<close>

text \<open>
  What \<open>split\<close> returns once \<open>getIds\<close> has returned the cells \<open>c\<close> and the index is
  within the four vectors that are indexed.
\<close>

lemma split_unfolded:
  fixes s :: setOfPencils and p :: uint and dx dy :: real
  assumes g: "getIds s p = Some (Inr c)"
    and k: "unat p < length (path s)" "unat p < length (xPos s)"
           "unat p < length (yPos s)" "unat p < length (periodic s)"
  defines "x0 \<equiv> xPos s ! unat p - 0.25 * dx"
  defines "y0 \<equiv> yPos s ! unat p + 0.25 * dy"
  shows "split p dx dy s = Some (Inr
     \<lparr>numN = numN s + 1 + 1 + 1,
      sumOfLengths = sumOfLengths s + of_nat (length c) + of_nat (length c) + of_nat (length c),
      lengthOfPencils = lengthOfPencils s @ [of_nat (length c), of_nat (length c), of_nat (length c)],
      ids = ids s @ c @ c @ c,
      xPos = (xPos s)[unat p := x0] @ [x0 + 0.25 * dx, x0 - 0.25 * dx, x0 + 0.25 * dx],
      yPos = (yPos s)[unat p := y0] @ [y0 + 0.25 * dy, y0 - 0.25 * dy, y0 - 0.25 * dy],
      periodic = periodic s @ [periodic s ! unat p, periodic s ! unat p, periodic s ! unat p],
      path = (path s)[unat p := path s ! unat p @ [0]]
             @ [path s ! unat p @ [1], path s ! unat p @ [2], path s ! unat p @ [3]]\<rparr>)"
  using k unfolding split_def g
  by (simp add: Let_def addPencil_def nth_append x0_def y0_def)

text \<open>A split that returns has appended three pencils of one and the same length.\<close>

lemma split_shape:
  assumes "split p dx dy s = Some (Inr s')"
  shows "\<exists>c. lengthOfPencils s' = lengthOfPencils s @ [of_nat (length c), of_nat (length c), of_nat (length c)]
           \<and> ids s' = ids s @ c @ c @ c
           \<and> numN s' = numN s + 1 + 1 + 1
           \<and> sumOfLengths s' = sumOfLengths s + of_nat (length c) + of_nat (length c) + of_nat (length c)
           \<and> length (xPos s') = length (xPos s) + 3
           \<and> length (yPos s') = length (yPos s) + 3
           \<and> length (periodic s') = length (periodic s) + 3
           \<and> length (path s') = length (path s) + 3"
proof -
  from assms obtain c where g: "getIds s p = Some (Inr c)"
    by (auto simp: split_def split: option.splits sum.splits)
  from assms have k: "unat p < length (path s)" "unat p < length (xPos s)"
       "unat p < length (yPos s)" "unat p < length (periodic s)"
    unfolding split_def g by (auto simp: Let_def split: if_splits)
  from assms have "Some (Inr s') = split p dx dy s" by simp
  also note split_unfolded[OF g k, of dx dy]
  finally show ?thesis
    by (intro exI[of _ c]) auto
qed

text \<open>
  Under the representation invariant a split of an existing pencil returns; the new
  set is the old one with the entries of pencil \<open>p\<close> updated and three pencils appended.
\<close>

lemma split_effect:
  fixes s :: setOfPencils and p :: uint and dx dy :: real
  assumes inv: "repInv s" and lt: "p < numN s"
  obtains s' where "split p dx dy s = Some (Inr s')"
    and "lengthOfPencils s' = lengthOfPencils s
           @ [lengthOfPencils s ! unat p, lengthOfPencils s ! unat p, lengthOfPencils s ! unat p]"
    and "ids s' = ids s @ pencilSlice s (unat p) @ pencilSlice s (unat p) @ pencilSlice s (unat p)"
    and "xPos s' = (xPos s)[unat p := xPos s ! unat p - 0.25 * dx]
           @ [xPos s ! unat p - 0.25 * dx + 0.25 * dx, xPos s ! unat p - 0.25 * dx - 0.25 * dx,
              xPos s ! unat p - 0.25 * dx + 0.25 * dx]"
    and "yPos s' = (yPos s)[unat p := yPos s ! unat p + 0.25 * dy]
           @ [yPos s ! unat p + 0.25 * dy + 0.25 * dy, yPos s ! unat p + 0.25 * dy - 0.25 * dy,
              yPos s ! unat p + 0.25 * dy - 0.25 * dy]"
    and "periodic s' = periodic s @ [periodic s ! unat p, periodic s ! unat p, periodic s ! unat p]"
    and "path s' = (path s)[unat p := path s ! unat p @ [0]]
           @ [path s ! unat p @ [1], path s ! unat p @ [2], path s ! unat p @ [3]]"
proof -
  from lt have "unat p < unat (numN s)" by (simp add: word_less_nat_alt)
  with inv have k: "unat p < length (lengthOfPencils s)" "unat p < length (path s)"
    "unat p < length (xPos s)" "unat p < length (yPos s)" "unat p < length (periodic s)"
    by (simp_all add: repInv_def)
  have len: "(of_nat (length (pencilSlice s (unat p))) :: uint) = lengthOfPencils s ! unat p"
    by (simp add: length_pencilSlice[OF inv k(1)])
  show thesis
    by (rule that[OF split_unfolded[OF getIds_slice[OF inv lt] k(2-5)]]) (simp_all add: len)
qed

lemma pencilSlice_kept:
  assumes "k < length (lengthOfPencils s)"
    and "sum_list (map unat (take k (lengthOfPencils s))) + unat (lengthOfPencils s ! k) \<le> length (ids s)"
    and "lengthOfPencils s' = lengthOfPencils s @ ext"
    and "ids s' = ids s @ rest"
  shows "pencilSlice s' k = pencilSlice s k"
  using assms by (simp add: pencilSlice_def nth_append)

lemma pencilSlice_appended:
  assumes "sum_list (map unat (lengthOfPencils s)) = length (ids s)"
    and "lengthOfPencils s' = lengthOfPencils s @ [l, l, l]"
    and "ids s' = ids s @ c @ c @ c"
    and "unat l = length c"
  shows "pencilSlice s' (length (lengthOfPencils s)) = c"
    and "pencilSlice s' (length (lengthOfPencils s) + 1) = c"
    and "pencilSlice s' (length (lengthOfPencils s) + 2) = c"
  using assms by (simp_all add: pencilSlice_def nth_append)

text \<open>
  A set of two pencils, built by two calls of \<^verbatim>\<open>addPencil\<close>, whose first pencil has
  \<open>2^32 - 1\<close> cells: \<^verbatim>\<open>N\<close> is 2, the number of pencils, and the stored lengths are the
  true ones, but \<^verbatim>\<open>ids\<close> holds \<open>2^32\<close> cells or more. For the second pencil
  \<^verbatim>\<open>iend\<close> is beyond the range of the 32-bit loop counter of \<open>getIds\<close>, and
  \<^verbatim>\<open>split(1, dx, dy)\<close> does not return.
\<close>

lemma split_behind_long_pencil:
  fixes c :: "CellID list" and x0 y0 x1 y1 dx dy :: real and b0 b1 :: bool
    and q0 q1 :: "uint list"
  assumes c: "0 < length c" "length c < 2 ^ 32"
  defines "s \<equiv> addPencil c x1 y1 b1 q1 (addPencil (replicate (2 ^ 32 - 1) 0) x0 y0 b0 q0 emptySet)"
  shows "reachable s" and "unat (numN s) = length (path s)" and "1 < numN s"
    and "split 1 dx dy s = None"
proof -
  show "reachable s" unfolding s_def by (intro reachable.added reachable.initial)
  have n: "numN s = 2" "length (path s) = 2" by (simp_all add: s_def addPencil_def emptySet_def)
  show "unat (numN s) = length (path s)" "1 < numN s" unfolding n by simp_all
  have ls: "lengthOfPencils s = [- 1, of_nat (length c)]"
    by (simp add: s_def addPencil_def emptySet_def)
  have len: "length (ids s) = 2 ^ 32 - 1 + length c"
    by (simp add: s_def addPencil_def emptySet_def)
  have b: "beginLoop [- 1, of_nat (length c)] 1 0 0 = Inr (ucast (- 1 :: uint))"
    by (simp add: beginLoop.simps)
  have u1: "unat (ucast (- 1 :: uint) :: CellID) = 2 ^ 32 - 1"
    by (simp add: unat_ucast_32_64 unsigned_minus_1_eq_mask mask_eq_exp_minus_1)
  have u2: "unat (ucast (of_nat (length c) :: uint) :: CellID) = length c"
    using c(2) by (simp only: unat_ucast_32_64 unat_of_nat_32)
  have "unat (ucast (- 1 :: uint) :: CellID) + unat (ucast (of_nat (length c) :: uint) :: CellID)
        < 2 ^ LENGTH(64)"
    using c(2) unfolding u1 u2 by simp
  then have "unat (ucast (- 1 :: uint) + ucast (of_nat (length c) :: uint) :: CellID)
             = unat (ucast (- 1 :: uint) :: CellID) + unat (ucast (of_nat (length c) :: uint) :: CellID)"
    by (simp only: unat_add_lem)
  then have e: "unat (ucast (- 1 :: uint) + ucast (of_nat (length c) :: uint) :: CellID)
                = 2 ^ 32 - 1 + length c"
    by (simp only: u1 u2)
  have "getIds s 1 = None"
  proof (rule getIds_never_returns)
    show "\<not> numN s < 1" unfolding n by simp
    show "beginLoop (lengthOfPencils s) 1 0 0 = Inr (ucast (- 1 :: uint))" by (simp only: ls b)
    show "unat (1 :: uint) < length (lengthOfPencils s)" unfolding ls by simp
    have "lengthOfPencils s ! unat (1 :: uint) = of_nat (length c)" unfolding ls by simp
    then have "unat (ucast (- 1 :: uint) + ucast (lengthOfPencils s ! unat (1 :: uint)) :: CellID)
               = 2 ^ 32 - 1 + length c"
      by (simp only: e)
    moreover have more_than: "(2::nat) ^ 32 \<le> 2 ^ 32 - 1 + length c"
      using c(1) by (cases c) simp_all
    ultimately show "2 ^ 32 \<le> unat (ucast (- 1 :: uint) + ucast (lengthOfPencils s ! unat (1 :: uint)) :: CellID)"
      by (simp only:)
    show "2 ^ 32 \<le> length (ids s)" using more_than by (simp only: len)
  qed
  then show "split 1 dx dy s = None" by (simp add: split_def)
qed

text \<open>
  C2 (one pencil at the origin, \<^verbatim>\<open>split(0, 4, 4)\<close>): the claim puts the four pencils at the
  parent's position offset by \<open>(\<plusminus>0.25 dx, \<plusminus>0.25 dy)\<close>, here \<open>(-1,1)\<close>, \<open>(1,1)\<close>,
  \<open>(-1,-1)\<close> and \<open>(1,-1)\<close>. The code puts them at \<open>(-1,1)\<close>, \<open>(0,2)\<close>, \<open>(-2,0)\<close> and
  \<open>(0,0)\<close>: the three appended positions are computed from \<^verbatim>\<open>x[pencilId]\<close> and
  \<^verbatim>\<open>y[pencilId]\<close> after these were moved to the first quadrant. The paths \<open>[0]\<close>, \<open>[1]\<close>,
  \<open>[2]\<close>, \<open>[3]\<close> differ in the last selector only, as the claim says.
\<close>

theorem split_positions_at_origin:
  "split 0 4 4 (addPencil [7, 8] 0 0 False [] emptySet) = Some (Inr
     \<lparr>numN = 4, sumOfLengths = 8, lengthOfPencils = [2, 2, 2, 2],
      ids = [7, 8, 7, 8, 7, 8, 7, 8],
      xPos = [- 1, 0, - 2, 0], yPos = [1, 2, 0, 0],
      periodic = [False, False, False, False],
      path = [[0], [1], [2], [3]]\<rparr>)"
proof -
  have g: "getIds (addPencil [7, 8] 0 0 False [] emptySet) 0 = Some (Inr [7, 8])"
    by (simp add: getIds_def emptySet_def addPencil_def beginLoop.simps copyLoop.simps)
  show ?thesis
    unfolding split_def g by (simp add: Let_def addPencil_def emptySet_def)
qed

text \<open>
  C3, as amended: for a set that satisfies the representation invariant and a pencil index \<open>p < N\<close>,
  \<open>split\<close> returns a set with three more pencils. Pencil \<open>p\<close> and the three appended
  pencils each hold the cell ids and the periodic flag that pencil \<open>p\<close> had, and their
  paths are the old path of \<open>p\<close> followed by the selector 0, 1, 2 and 3 in this order.
\<close>

theorem split_four_clones:
  fixes s :: setOfPencils and p :: uint and dx dy :: real
  assumes inv: "repInv s" and lt: "p < numN s"
  shows "\<exists>s'. split p dx dy s = Some (Inr s') \<and>
     length (path s') = length (path s) + 3 \<and>
     (\<forall>j \<in> {unat p, length (path s), length (path s) + 1, length (path s) + 2}.
         pencilSlice s' j = pencilSlice s (unat p) \<and> periodic s' ! j = periodic s ! unat p) \<and>
     path s' ! unat p = path s ! unat p @ [0] \<and>
     path s' ! length (path s) = path s ! unat p @ [1] \<and>
     path s' ! (length (path s) + 1) = path s ! unat p @ [2] \<and>
     path s' ! (length (path s) + 2) = path s ! unat p @ [3]"
proof -
  let ?k = "unat p" and ?n = "length (path s)"
  from lt have "?k < unat (numN s)" by (simp add: word_less_nat_alt)
  with inv have k: "?k < length (lengthOfPencils s)" "?k < length (periodic s)" "?k < ?n"
    and n: "length (lengthOfPencils s) = ?n" "length (periodic s) = ?n"
    by (simp_all add: repInv_def)
  from inv have total: "sum_list (map unat (lengthOfPencils s)) = length (ids s)"
    by (simp add: repInv_def)
  have fits: "sum_list (map unat (take ?k (lengthOfPencils s))) + unat (lengthOfPencils s ! ?k)
              \<le> length (ids s)"
    by (rule slice_bounds(1)[OF inv k(1)])
  have len: "unat (lengthOfPencils s ! ?k) = length (pencilSlice s ?k)"
    by (simp add: length_pencilSlice[OF inv k(1)])
  obtain s' where res: "split p dx dy s = Some (Inr s')"
    and L: "lengthOfPencils s' = lengthOfPencils s
           @ [lengthOfPencils s ! ?k, lengthOfPencils s ! ?k, lengthOfPencils s ! ?k]"
    and I: "ids s' = ids s @ pencilSlice s ?k @ pencilSlice s ?k @ pencilSlice s ?k"
    and P: "periodic s' = periodic s @ [periodic s ! ?k, periodic s ! ?k, periodic s ! ?k]"
    and Q: "path s' = (path s)[?k := path s ! ?k @ [0]]
           @ [path s ! ?k @ [1], path s ! ?k @ [2], path s ! ?k @ [3]]"
    by (rule split_effect[OF inv lt, of dx dy])
  have s0: "pencilSlice s' ?k = pencilSlice s ?k"
    by (rule pencilSlice_kept[OF k(1) fits L I])
  have s1: "pencilSlice s' ?n = pencilSlice s ?k"
    and s2: "pencilSlice s' (?n + 1) = pencilSlice s ?k"
    and s3: "pencilSlice s' (?n + 2) = pencilSlice s ?k"
    using pencilSlice_appended[OF total L I len] by (simp_all only: n)
  have per: "\<forall>j \<in> {?k, ?n, ?n + 1, ?n + 2}. periodic s' ! j = periodic s ! ?k"
    using k n by (simp add: P nth_append)
  have paths: "path s' ! ?k = path s ! ?k @ [0]" "path s' ! ?n = path s ! ?k @ [1]"
     "path s' ! (?n + 1) = path s ! ?k @ [2]" "path s' ! (?n + 2) = path s ! ?k @ [3]"
    using k by (simp_all add: Q nth_append)
  have "length (path s') = ?n + 3" by (simp add: Q)
  with res s0 s1 s2 s3 per paths show ?thesis by (intro exI[of _ s']) simp
qed

theorem split_four_clones_witness:
  "repInv (addPencil [5] 1 1 True [2] (addPencil [7, 8] 0 0 False [] emptySet)) \<and>
   1 < numN (addPencil [5] 1 1 True [2] (addPencil [7, 8] 0 0 False [] emptySet)) \<and>
   (\<exists>s'. split 1 4 4 (addPencil [5] 1 1 True [2] (addPencil [7, 8] 0 0 False [] emptySet))
            = Some (Inr s') \<and>
      length (path s') = 5 \<and>
      (\<forall>j \<in> {1, 2, 3, 4}. pencilSlice s' j = [5] \<and> periodic s' ! j = True) \<and>
      path s' ! 1 = [2, 0] \<and> path s' ! 2 = [2, 1] \<and> path s' ! 3 = [2, 2] \<and> path s' ! 4 = [2, 3])"
proof -
  let ?s = "addPencil [5] 1 1 True [2] (addPencil [7, 8] 0 0 False [] emptySet)"
  have inv: "repInv ?s" by (simp add: repInv_def addPencil_def emptySet_def)
  have lt: "1 < numN ?s" by (simp add: addPencil_def emptySet_def)
  have old: "pencilSlice ?s (unat (1::uint)) = [5]" "periodic ?s ! unat (1::uint) = True"
    "path ?s ! unat (1::uint) = [2]" "length (path ?s) = 2"
    by (simp_all add: pencilSlice_def addPencil_def emptySet_def)
  from split_four_clones[OF inv lt, of 4 4] inv lt show ?thesis
    unfolding old by simp
qed

text \<open>
  C3 as stated, for every set, fails without the representation invariant: on the set of
  the pencil of \<open>2^32 - 1\<close> cells followed by the pencil of cells 7 and 8, the index 1 is
  below \<^verbatim>\<open>N = 2\<close> and \<^verbatim>\<open>split(1, 4, 4)\<close> produces no pencils, since it does not return.
\<close>

theorem split_four_clones_counterexample:
  "reachable (addPencil [7, 8] 1 1 False [] (addPencil (replicate (2 ^ 32 - 1) 0) 0 0 False [] emptySet)) \<and>
   unat (numN (addPencil [7, 8] 1 1 False [] (addPencil (replicate (2 ^ 32 - 1) 0) 0 0 False [] emptySet)))
     = length (path (addPencil [7, 8] 1 1 False [] (addPencil (replicate (2 ^ 32 - 1) 0) 0 0 False [] emptySet))) \<and>
   1 < numN (addPencil [7, 8] 1 1 False [] (addPencil (replicate (2 ^ 32 - 1) 0) 0 0 False [] emptySet)) \<and>
   split 1 4 4 (addPencil [7, 8] 1 1 False [] (addPencil (replicate (2 ^ 32 - 1) 0) 0 0 False [] emptySet))
     = None"
  by (intro conjI split_behind_long_pencil) simp_all

text \<open>
  C10, as amended: for a set that satisfies the representation invariant and a pencil index \<open>p < N\<close>,
  \<open>split\<close> returns a set in which every vector has grown by three entries at its end
  (\<^verbatim>\<open>ids\<close> by the appended cells), the lengths, cell ids and periodic flags of the old
  pencils are as before, pencil \<open>p\<close> included, and the old part of \<^verbatim>\<open>x\<close>, \<^verbatim>\<open>y\<close> and
  \<^verbatim>\<open>path\<close> differs from before at index \<open>p\<close> only.
\<close>

theorem split_frame:
  fixes s :: setOfPencils and p :: uint and dx dy :: real
  assumes inv: "repInv s" and lt: "p < numN s"
  shows "\<exists>s'. split p dx dy s = Some (Inr s') \<and>
     length (lengthOfPencils s') = length (lengthOfPencils s) + 3 \<and>
     length (xPos s') = length (xPos s) + 3 \<and>
     length (yPos s') = length (yPos s) + 3 \<and>
     length (periodic s') = length (periodic s) + 3 \<and>
     length (path s') = length (path s) + 3 \<and>
     take (length (lengthOfPencils s)) (lengthOfPencils s') = lengthOfPencils s \<and>
     take (length (ids s)) (ids s') = ids s \<and>
     take (length (periodic s)) (periodic s') = periodic s \<and>
     (\<forall>j < length (lengthOfPencils s). pencilSlice s' j = pencilSlice s j) \<and>
     take (length (xPos s)) (xPos s') = (xPos s)[unat p := xPos s' ! unat p] \<and>
     take (length (yPos s)) (yPos s') = (yPos s)[unat p := yPos s' ! unat p] \<and>
     take (length (path s)) (path s') = (path s)[unat p := path s' ! unat p]"
proof -
  let ?k = "unat p"
  from lt have "?k < unat (numN s)" by (simp add: word_less_nat_alt)
  with inv have k: "?k < length (xPos s)" "?k < length (yPos s)" "?k < length (path s)"
    by (simp_all add: repInv_def)
  obtain s' where res: "split p dx dy s = Some (Inr s')"
    and L: "lengthOfPencils s' = lengthOfPencils s
           @ [lengthOfPencils s ! ?k, lengthOfPencils s ! ?k, lengthOfPencils s ! ?k]"
    and I: "ids s' = ids s @ pencilSlice s ?k @ pencilSlice s ?k @ pencilSlice s ?k"
    and X: "xPos s' = (xPos s)[?k := xPos s ! ?k - 0.25 * dx]
           @ [xPos s ! ?k - 0.25 * dx + 0.25 * dx, xPos s ! ?k - 0.25 * dx - 0.25 * dx,
              xPos s ! ?k - 0.25 * dx + 0.25 * dx]"
    and Y: "yPos s' = (yPos s)[?k := yPos s ! ?k + 0.25 * dy]
           @ [yPos s ! ?k + 0.25 * dy + 0.25 * dy, yPos s ! ?k + 0.25 * dy - 0.25 * dy,
              yPos s ! ?k + 0.25 * dy - 0.25 * dy]"
    and P: "periodic s' = periodic s @ [periodic s ! ?k, periodic s ! ?k, periodic s ! ?k]"
    and Q: "path s' = (path s)[?k := path s ! ?k @ [0]]
           @ [path s ! ?k @ [1], path s ! ?k @ [2], path s ! ?k @ [3]]"
    by (rule split_effect[OF inv lt, of dx dy])
  have slices: "\<forall>j < length (lengthOfPencils s). pencilSlice s' j = pencilSlice s j"
  proof (intro allI impI)
    fix j assume j: "j < length (lengthOfPencils s)"
    show "pencilSlice s' j = pencilSlice s j"
      by (rule pencilSlice_kept[OF j slice_bounds(1)[OF inv j] L I])
  qed
  have lens: "length (lengthOfPencils s') = length (lengthOfPencils s) + 3"
    "length (xPos s') = length (xPos s) + 3" "length (yPos s') = length (yPos s) + 3"
    "length (periodic s') = length (periodic s) + 3" "length (path s') = length (path s) + 3"
    by (simp_all add: L X Y P Q)
  have pre: "take (length (lengthOfPencils s)) (lengthOfPencils s') = lengthOfPencils s"
    "take (length (ids s)) (ids s') = ids s" "take (length (periodic s)) (periodic s') = periodic s"
    by (simp_all add: L I P)
  have upd: "take (length (xPos s)) (xPos s') = (xPos s)[?k := xPos s' ! ?k]"
    "take (length (yPos s)) (yPos s') = (yPos s)[?k := yPos s' ! ?k]"
    "take (length (path s)) (path s') = (path s)[?k := path s' ! ?k]"
    using k by (simp_all add: X Y Q nth_append)
  from res lens pre slices upd show ?thesis by (intro exI[of _ s']) simp
qed

theorem split_frame_witness:
  "repInv (addPencil [5] 1 1 True [2] (addPencil [7, 8] 0 0 False [] emptySet)) \<and>
   0 < numN (addPencil [5] 1 1 True [2] (addPencil [7, 8] 0 0 False [] emptySet)) \<and>
   (\<exists>s'. split 0 4 4 (addPencil [5] 1 1 True [2] (addPencil [7, 8] 0 0 False [] emptySet))
            = Some (Inr s') \<and>
      length (lengthOfPencils s') = 5 \<and> length (xPos s') = 5 \<and> length (yPos s') = 5 \<and>
      length (periodic s') = 5 \<and> length (path s') = 5 \<and>
      take 2 (lengthOfPencils s') = [2, 1] \<and>
      take 3 (ids s') = [7, 8, 5] \<and>
      take 2 (periodic s') = [False, True] \<and>
      pencilSlice s' 0 = [7, 8] \<and> pencilSlice s' 1 = [5] \<and>
      take 2 (xPos s') = [xPos s' ! 0, 1] \<and>
      take 2 (yPos s') = [yPos s' ! 0, 1] \<and>
      take 2 (path s') = [path s' ! 0, [2]])"
proof -
  let ?s = "addPencil [5] 1 1 True [2] (addPencil [7, 8] 0 0 False [] emptySet)"
  have inv: "repInv ?s" by (simp add: repInv_def addPencil_def emptySet_def)
  have lt: "0 < numN ?s" by (simp add: addPencil_def emptySet_def)
  have oldlen: "length (lengthOfPencils ?s) = 2" "length (xPos ?s) = 2" "length (yPos ?s) = 2"
    "length (periodic ?s) = 2" "length (path ?s) = 2" "length (ids ?s) = 3"
    by (simp_all add: addPencil_def emptySet_def)
  have oldval: "lengthOfPencils ?s = [2, 1]" "ids ?s = [7, 8, 5]" "periodic ?s = [False, True]"
    "xPos ?s = [0, 1]" "yPos ?s = [0, 1]" "path ?s = [[], [2]]"
    by (simp_all add: addPencil_def emptySet_def)
  have oldsl: "pencilSlice ?s 0 = [7, 8]" "pencilSlice ?s 1 = [5]"
    by (simp_all add: pencilSlice_def addPencil_def emptySet_def)
  from split_frame[OF inv lt, of 4 4, unfolded oldlen, unfolded oldval] obtain s' where big:
    "split 0 4 4 ?s = Some (Inr s') \<and>
     length (lengthOfPencils s') = 2 + 3 \<and>
     length (xPos s') = 2 + 3 \<and>
     length (yPos s') = 2 + 3 \<and>
     length (periodic s') = 2 + 3 \<and>
     length (path s') = 2 + 3 \<and>
     take 2 (lengthOfPencils s') = [2, 1] \<and>
     take 3 (ids s') = [7, 8, 5] \<and>
     take 2 (periodic s') = [False, True] \<and>
     (\<forall>j < 2. pencilSlice s' j = pencilSlice ?s j) \<and>
     take 2 (xPos s') = [0, 1][unat (0::uint) := xPos s' ! unat (0::uint)] \<and>
     take 2 (yPos s') = [0, 1][unat (0::uint) := yPos s' ! unat (0::uint)] \<and>
     take 2 (path s') = [[], [2]][unat (0::uint) := path s' ! unat (0::uint)]" ..
  from big have res: "split 0 4 4 ?s = Some (Inr s')" by (rule conjunct1)
  from big have lens: "length (lengthOfPencils s') = 5" "length (xPos s') = 5"
      "length (yPos s') = 5" "length (periodic s') = 5" "length (path s') = 5"
    by simp_all
  from big have pre: "take 2 (lengthOfPencils s') = [2, 1]" "take 3 (ids s') = [7, 8, 5]"
      "take 2 (periodic s') = [False, True]"
    by simp_all
  from big have "\<forall>j<2. pencilSlice s' j = pencilSlice ?s j" by blast
  then have "pencilSlice s' 0 = pencilSlice ?s 0" "pencilSlice s' 1 = pencilSlice ?s 1"
    by simp_all
  then have sl: "pencilSlice s' 0 = [7, 8]" "pencilSlice s' 1 = [5]"
    by (simp_all only: oldsl)
  from big have upd: "take 2 (xPos s') = [xPos s' ! 0, 1]" "take 2 (yPos s') = [yPos s' ! 0, 1]"
    "take 2 (path s') = [path s' ! 0, [2]]"
    by simp_all
  show ?thesis
    using inv lt res lens pre sl upd by (intro conjI exI[of _ s']) assumption+
qed

text \<open>
  C10 as stated, for every set, fails without the representation invariant: on the set of
  the pencil of \<open>2^32 - 1\<close> cells followed by the pencil of the one cell 9, the index 1 is
  below \<^verbatim>\<open>N = 2\<close> and \<^verbatim>\<open>split(1, 2, 2)\<close> does not return, so it appends nothing.
\<close>

theorem split_frame_counterexample:
  "reachable (addPencil [9] 1 1 True [] (addPencil (replicate (2 ^ 32 - 1) 0) 0 0 False [] emptySet)) \<and>
   unat (numN (addPencil [9] 1 1 True [] (addPencil (replicate (2 ^ 32 - 1) 0) 0 0 False [] emptySet)))
     = length (path (addPencil [9] 1 1 True [] (addPencil (replicate (2 ^ 32 - 1) 0) 0 0 False [] emptySet))) \<and>
   1 < numN (addPencil [9] 1 1 True [] (addPencil (replicate (2 ^ 32 - 1) 0) 0 0 False [] emptySet)) \<and>
   split 1 2 2 (addPencil [9] 1 1 True [] (addPencil (replicate (2 ^ 32 - 1) 0) 0 0 False [] emptySet))
     = None"
  by (intro conjI split_behind_long_pencil) simp_all

section \<open>The sets that the member functions build\<close>

lemma sum_chunk_lengths:
  "length (concat cs) < 2 ^ 32 \<Longrightarrow>
   sum_list (map unat (map (\<lambda>c. of_nat (length c) :: uint) cs)) = length (concat cs)"
proof (induction cs)
  case Nil
  then show ?case by simp
next
  case (Cons c cs)
  then have "length c < 2 ^ 32" and "length (concat cs) < 2 ^ 32" by simp_all
  with Cons.IH show ?case by (simp add: unat_of_nat_32)
qed

lemma sum_chunk_words:
  "sum_list (map (\<lambda>c. of_nat (length c) :: uint) cs) = of_nat (length (concat cs))"
  by (induction cs) simp_all

text \<open>
  Every reachable set is a sequence of chunks of cell ids, one per pencil; the two
  counters hold the number of chunks and the number of cell ids as 32-bit values.
\<close>

lemma reachable_chunks:
  "reachable s \<Longrightarrow>
   \<exists>cs. ids s = concat cs \<and> lengthOfPencils s = map (\<lambda>c. of_nat (length c)) cs
      \<and> numN s = of_nat (length cs)
      \<and> length (xPos s) = length cs \<and> length (yPos s) = length cs
      \<and> length (periodic s) = length cs \<and> length (path s) = length cs
      \<and> sumOfLengths s = of_nat (length (ids s))"
proof (induction rule: reachable.induct)
  case initial
  show ?case by (intro exI[of _ "[]"]) (simp add: emptySet_def)
next
  case (added s idsIn xIn yIn periodicIn pathIn)
  then obtain cs where "ids s = concat cs \<and> lengthOfPencils s = map (\<lambda>c. of_nat (length c)) cs
      \<and> numN s = of_nat (length cs)
      \<and> length (xPos s) = length cs \<and> length (yPos s) = length cs
      \<and> length (periodic s) = length cs \<and> length (path s) = length cs
      \<and> sumOfLengths s = of_nat (length (ids s))" by blast
  then show ?case by (intro exI[of _ "cs @ [idsIn]"]) (simp add: addPencil_def)
next
  case (splitted s pencilId dx dy s')
  then obtain cs where cs: "ids s = concat cs \<and> lengthOfPencils s = map (\<lambda>c. of_nat (length c)) cs
      \<and> numN s = of_nat (length cs)
      \<and> length (xPos s) = length cs \<and> length (yPos s) = length cs
      \<and> length (periodic s) = length cs \<and> length (path s) = length cs
      \<and> sumOfLengths s = of_nat (length (ids s))" by blast
  from split_shape[OF splitted.hyps(2)] obtain c where
    c: "lengthOfPencils s' = lengthOfPencils s @ [of_nat (length c), of_nat (length c), of_nat (length c)]
           \<and> ids s' = ids s @ c @ c @ c
           \<and> numN s' = numN s + 1 + 1 + 1
           \<and> sumOfLengths s' = sumOfLengths s + of_nat (length c) + of_nat (length c) + of_nat (length c)
           \<and> length (xPos s') = length (xPos s) + 3
           \<and> length (yPos s') = length (yPos s) + 3
           \<and> length (periodic s') = length (periodic s) + 3
           \<and> length (path s') = length (path s) + 3" by blast
  from cs c show ?case by (intro exI[of _ "cs @ [c, c, c]"]) simp
qed

lemma iterate_addPencil:
  "numN ((addPencil c a b d e ^^ n) s) = numN s + of_nat n \<and>
   length (xPos ((addPencil c a b d e ^^ n) s)) = length (xPos s) + n"
  by (induction n) (simp_all add: addPencil_def)

lemma reachable_iterate:
  "reachable s \<Longrightarrow> reachable ((addPencil c a b d e ^^ n) s)"
  by (induction n) (simp_all add: reachable.added)

text \<open>
  C8, as amended: in every set reachable from the default-constructed one by calls of
  \<^verbatim>\<open>addPencil\<close> and \<^verbatim>\<open>split\<close>, the vectors \<^verbatim>\<open>lengthOfPencils\<close>, \<^verbatim>\<open>x\<close>, \<^verbatim>\<open>y\<close>,
  \<^verbatim>\<open>periodic\<close> and \<^verbatim>\<open>path\<close> have the same number of entries; \<^verbatim>\<open>N\<close> is that number
  modulo \<open>2^32\<close>; \<^verbatim>\<open>sumOfLengths\<close> is the number of entries of \<^verbatim>\<open>ids\<close> modulo \<open>2^32\<close>,
  and is the sum of \<^verbatim>\<open>lengthOfPencils\<close> modulo \<open>2^32\<close>. When the set holds fewer than
  \<open>2^32\<close> pencils and fewer than \<open>2^32\<close> cell ids, the equalities hold without the modulus:
  the representation invariant.
\<close>

theorem reachable_invariant:
  assumes "reachable s"
  shows "length (xPos s) = length (lengthOfPencils s) \<and>
         length (yPos s) = length (lengthOfPencils s) \<and>
         length (periodic s) = length (lengthOfPencils s) \<and>
         length (path s) = length (lengthOfPencils s) \<and>
         numN s = of_nat (length (lengthOfPencils s)) \<and>
         sumOfLengths s = of_nat (length (ids s)) \<and>
         sumOfLengths s = sum_list (lengthOfPencils s) \<and>
         (length (lengthOfPencils s) < 2 ^ 32 \<and> length (ids s) < 2 ^ 32 \<longrightarrow> repInv s)"
proof -
  from reachable_chunks[OF assms] obtain cs where cs: "ids s = concat cs"
      "lengthOfPencils s = map (\<lambda>c. of_nat (length c)) cs"
      "numN s = of_nat (length cs)"
      "length (xPos s) = length cs" "length (yPos s) = length cs"
      "length (periodic s) = length cs" "length (path s) = length cs"
      "sumOfLengths s = of_nat (length (ids s))" by blast
  have n: "length (lengthOfPencils s) = length cs" by (simp add: cs(2))
  have words: "sumOfLengths s = sum_list (lengthOfPencils s)"
    by (simp only: cs(8) cs(2) sum_chunk_words cs(1))
  have exact: "repInv s" if small: "length (lengthOfPencils s) < 2 ^ 32" "length (ids s) < 2 ^ 32"
  proof -
    have N: "unat (numN s) = length cs" using small(1) by (simp add: cs(3) n unat_of_nat_32)
    have S: "unat (sumOfLengths s) = length (ids s)"
      using small(2) by (simp add: cs(8) unat_of_nat_32)
    have "sum_list (map unat (lengthOfPencils s)) = length (ids s)"
      using small(2) unfolding cs(1) cs(2) by (rule sum_chunk_lengths)
    with N S cs show ?thesis by (simp add: repInv_def)
  qed
  from cs(3-8) n words exact show ?thesis by simp
qed

theorem reachable_invariant_witness:
  "reachable (addPencil [5] 1 1 True [2] (addPencil [7, 8] 0 0 False [] emptySet)) \<and>
   length (lengthOfPencils (addPencil [5] 1 1 True [2] (addPencil [7, 8] 0 0 False [] emptySet)))
     < 2 ^ 32 \<and>
   length (ids (addPencil [5] 1 1 True [2] (addPencil [7, 8] 0 0 False [] emptySet))) < 2 ^ 32 \<and>
   repInv (addPencil [5] 1 1 True [2] (addPencil [7, 8] 0 0 False [] emptySet))"
proof -
  let ?s = "addPencil [5] 1 1 True [2] (addPencil [7, 8] 0 0 False [] emptySet)"
  have r: "reachable ?s" by (intro reachable.added reachable.initial)
  have b: "length (lengthOfPencils ?s) < 2 ^ 32" "length (ids ?s) < 2 ^ 32"
    by (simp_all add: addPencil_def emptySet_def)
  from reachable_invariant[OF r] b have "repInv ?s" by blast
  with r b show ?thesis by blast
qed

text \<open>
  C8 as stated fails once a counter wraps: after \<open>2^32\<close> calls of \<^verbatim>\<open>addPencil\<close> (here
  with no cells) \<^verbatim>\<open>N\<close> is 0 again, while each per-pencil vector holds \<open>2^32\<close> entries.
\<close>

theorem reachable_invariant_counterexample:
  "reachable ((addPencil [] 0 0 False [] ^^ (2 ^ 32)) emptySet) \<and>
   unat (numN ((addPencil [] 0 0 False [] ^^ (2 ^ 32)) emptySet)) = 0 \<and>
   length (xPos ((addPencil [] 0 0 False [] ^^ (2 ^ 32)) emptySet)) = 2 ^ 32 \<and>
   \<not> repInv ((addPencil [] 0 0 False [] ^^ (2 ^ 32)) emptySet)"
proof -
  let ?S = "(addPencil [] 0 0 False [] ^^ (2 ^ 32)) emptySet"
  note it = iterate_addPencil[where c="[]" and a=0 and b=0 and d=False and e="[]"
      and n="2 ^ 32" and s=emptySet]
  have r: "reachable ?S" by (rule reachable_iterate[OF reachable.initial])
  have "numN ?S = 0 + of_nat (2 ^ 32)" using it by (simp add: emptySet_def)
  then have N: "unat (numN ?S) = 0" by simp
  have X: "length (xPos ?S) = 2 ^ 32" using it by (simp add: emptySet_def)
  from N X have "\<not> repInv ?S" by (simp add: repInv_def)
  with r N X show ?thesis by blast
qed

section \<open>Displacement check and accumulation\<close>

text \<open>
  C6: the remap fails with \<open>CflViolation\<close> exactly when the absolute value of the signed
  displacement is not less than the pencil half-length, it has no other error, and under
  the precondition \<open>\<bar>displacement\<bar> < half-length\<close> it completes with a result.
\<close>

theorem propagatePencil_cfl:
  "(propagatePencil remap v dt dz vals = Inl CflViolation
      \<longleftrightarrow> halfLength (length vals) \<le> \<bar>displacement v dt dz\<bar>) \<and>
   (\<forall>e. propagatePencil remap v dt dz vals = Inl e \<longrightarrow> e = CflViolation) \<and>
   (\<bar>displacement v dt dz\<bar> < halfLength (length vals)
      \<longrightarrow> (\<exists>out. propagatePencil remap v dt dz vals = Inr out))"
  by (auto simp: propagatePencil_def Let_def)

theorem propagatePencil_cfl_witness:
  "\<bar>displacement 1 1 1\<bar> < halfLength (length [0, 0, 0, 10, 0, 0, 0 :: real]) \<and>
   (\<exists>out. propagatePencil (\<lambda>d vs. vs) 1 1 1 [0, 0, 0, 10, 0, 0, 0] = Inr out) \<and>
   halfLength (length [0, 0, 0, 10, 0, 0, 0 :: real]) \<le> \<bar>displacement 7 1 2\<bar> \<and>
   propagatePencil (\<lambda>d vs. vs) 7 1 2 [0, 0, 0, 10, 0, 0, 0] = Inl CflViolation"
proof -
  have ok: "\<bar>displacement 1 1 1\<bar> < halfLength (length [0, 0, 0, 10, 0, 0, 0 :: real])"
    by (simp add: displacement_def halfLength_def)
  have bad: "halfLength (length [0, 0, 0, 10, 0, 0, 0 :: real]) \<le> \<bar>displacement 7 1 2\<bar>"
    by (simp add: displacement_def halfLength_def)
  from propagatePencil_cfl[of "\<lambda>d vs. vs" 1 1 1 "[0, 0, 0, 10, 0, 0, 0]"] ok
  have 1: "\<exists>out. propagatePencil (\<lambda>d vs. vs) 1 1 1 [0, 0, 0, 10, 0, 0, 0] = Inr out"
    by blast
  from propagatePencil_cfl[of "\<lambda>d vs. vs" 7 1 2 "[0, 0, 0, 10, 0, 0, 0]"] bad
  have 2: "propagatePencil (\<lambda>d vs. vs) 7 1 2 [0, 0, 0, 10, 0, 0, 0] = Inl CflViolation"
    by blast
  from ok bad 1 2 show ?thesis by blast
qed

text \<open>Two contributions can be added in either order.\<close>

lemma addContribution_commute:
  "addContribution me r1 (addContribution me r2 st) = addContribution me r2 (addContribution me r1 st)"
  by (auto simp: addContribution_def fun_eq_iff add.assoc add.left_commute add.commute)

lemma fold_addContribution_perm:
  assumes "mset rs = mset rs'"
  shows "fold (addContribution me) rs = fold (addContribution me) rs'"
proof (rule fold_multiset_equiv[OF _ assms])
  fix r1 r2 :: "'a RemoteContribution"
  show "addContribution me r1 \<circ> addContribution me r2 = addContribution me r2 \<circ> addContribution me r1"
    by (rule ext) (simp add: addContribution_commute)
qed

lemma fold_groups: "fold (\<lambda>g. fold f g) gs st = fold f (concat gs) st"
  by (induction gs arbitrary: st) simp_all

text \<open>
  C7: the records may arrive in any order and in any grouping. When the groups \<open>gs\<close>
  together hold the same records as the list \<open>rs\<close>, accumulating their concatenation
  gives the result of accumulating \<open>rs\<close>, the \<open>TransferMismatch\<close> outcome included, and
  adding the groups one after the other gives the same storage as adding \<open>rs\<close>.
\<close>

theorem accumulate_order_independent:
  fixes rs :: "('v::ab_semigroup_add) RemoteContribution list"
  assumes "mset (concat gs) = mset rs"
  shows "accumulate me n (concat gs) st = accumulate me n rs st \<and>
         fold (\<lambda>g. fold (addContribution me) g) gs st = fold (addContribution me) rs st"
proof -
  have len: "length (concat gs) = length rs" using assms by (rule mset_eq_length)
  have f: "fold (addContribution me) (concat gs) = fold (addContribution me) rs"
    using assms by (rule fold_addContribution_perm)
  have "fold (\<lambda>g. fold (addContribution me) g) gs st = fold (addContribution me) (concat gs) st"
    by (rule fold_groups)
  with f len show ?thesis by (simp add: accumulate_def)
qed

theorem accumulate_order_independent_witness:
  "mset (concat [[\<lparr>targetCell = 4, owningRank = 0, populationId = 0, increments = 3::real\<rparr>],
                 [\<lparr>targetCell = 4, owningRank = 0, populationId = 0, increments = 2\<rparr>,
                  \<lparr>targetCell = 9, owningRank = 0, populationId = 0, increments = 1\<rparr>]])
   = mset [\<lparr>targetCell = 9, owningRank = 0, populationId = 0, increments = 1\<rparr>,
           \<lparr>targetCell = 4, owningRank = 0, populationId = 0, increments = 2\<rparr>,
           \<lparr>targetCell = 4, owningRank = 0, populationId = 0, increments = 3\<rparr>] \<and>
   accumulate 0 3
     (concat [[\<lparr>targetCell = 4, owningRank = 0, populationId = 0, increments = 3::real\<rparr>],
              [\<lparr>targetCell = 4, owningRank = 0, populationId = 0, increments = 2\<rparr>,
               \<lparr>targetCell = 9, owningRank = 0, populationId = 0, increments = 1\<rparr>]]) (\<lambda>k. 0)
   = accumulate 0 3
       [\<lparr>targetCell = 9, owningRank = 0, populationId = 0, increments = 1\<rparr>,
        \<lparr>targetCell = 4, owningRank = 0, populationId = 0, increments = 2\<rparr>,
        \<lparr>targetCell = 4, owningRank = 0, populationId = 0, increments = 3\<rparr>] (\<lambda>k. 0)"
proof -
  let ?a = "\<lparr>targetCell = 4, owningRank = 0, populationId = 0, increments = 3::real\<rparr>"
  let ?b = "\<lparr>targetCell = 4, owningRank = 0, populationId = 0, increments = 2::real\<rparr>"
  let ?c = "\<lparr>targetCell = 9, owningRank = 0, populationId = 0, increments = 1::real\<rparr>"
  have m: "mset (concat [[?a], [?b, ?c]]) = mset [?c, ?b, ?a]" by simp
  from accumulate_order_independent[OF m, of 0 3 "\<lambda>k. 0"] m show ?thesis by blast
qed

end
